theory Spec2Isabelle
  imports Complex_Main "HOL-Library.Word"
begin

section \<open>Data model\<close>

text \<open>
  JavaScript strings are sequences of UTF-16 code units; a \<open>Buffer\<close> is a sequence of
  bytes. ASCII literals of the source are written with \<open>lit\<close>.
\<close>

type_synonym utf16 = "16 word"
type_synonym jsstring = "utf16 list"
type_synonym buffer = "8 word list"

definition lit :: "string \<Rightarrow> jsstring" where
  "lit s = map (\<lambda>c. of_nat (of_char c)) s"

definition dquote :: utf16 where
  "dquote = 0x22"

definition comma :: utf16 where
  "comma = 0x2C"

definition newline :: utf16 where
  "newline = 0x0A"

text \<open>A flash card, the output type of \<open>FlashCardSchema\<close> (actions.ts, lines 7-10).\<close>

record card =
  question :: jsstring
  answer :: jsstring

section \<open>CSV serialisation (route.ts, lines 72-73)\<close>

text \<open>
  \<^verbatim>\<open>const escape = (s: string) => s.replace(/"/g, '""');\<close>
  The global regular expression matches every single double quote, left to right; each
  match is replaced by two double quotes, every other code unit is copied.
\<close>

fun escape :: "jsstring \<Rightarrow> jsstring" where
  "escape [] = []"
| "escape (c # cs) = (if c = dquote then dquote # dquote # escape cs else c # escape cs)"

text \<open>
  The template literal of line 73:
  \<^verbatim>\<open>`"${escape(question)}","${escape(answer)}"`\<close>
\<close>

definition csv_row :: "card \<Rightarrow> jsstring" where
  "csv_row c =
     [dquote] @ escape (question c) @ [dquote, comma, dquote] @ escape (answer c) @ [dquote]"

text \<open>
  \<open>Array.prototype.join\<close>: the elements separated by the separator; the empty array
  gives the empty string.
\<close>

fun join :: "jsstring \<Rightarrow> jsstring list \<Rightarrow> jsstring" where
  "join sep [] = []"
| "join sep [x] = x"
| "join sep (x # y # ys) = x @ sep @ join sep (y # ys)"

text \<open>\<^verbatim>\<open>const csv = allCards.map(...).join("\n");\<close>\<close>

definition csv :: "card list \<Rightarrow> jsstring" where
  "csv allCards = join [newline] (map csv_row allCards)"

section \<open>Errors and the PDF library\<close>

text \<open>
  Every exception that can leave a function of the source is a value of \<open>error\<close>:
  \<^item> \<open>FormDataError\<close>: \<^verbatim>\<open>req.formData()\<close> rejects (the body is not form data);
  \<^item> \<open>PdfLoadError\<close>: \<^verbatim>\<open>PDFDocument.load\<close> rejects (the bytes are not a PDF);
  \<^item> \<open>PdfCopyError\<close>: \<^verbatim>\<open>copyPages\<close> is given an index outside the document;
  \<^item> \<open>GeneratorCallError\<close>: \<^verbatim>\<open>ai.models.generateContent\<close> rejects;
  \<^item> \<open>EmptyResponse\<close>: \<^verbatim>\<open>throw new Error("LLM response was empty")\<close>;
  \<^item> \<open>JsonSyntaxError\<close>: \<^verbatim>\<open>JSON.parse\<close> throws;
  \<^item> \<open>ZodError\<close>: \<^verbatim>\<open>FlashCardsArray.parse\<close> throws;
  \<^item> \<open>RangeError\<close>: \<^verbatim>\<open>allCards.push(...cards)\<close> is a call with one argument for
    every card of the batch, and the batch has more cards than a call takes arguments.
\<close>

datatype error =
    FormDataError
  | PdfLoadError
  | PdfCopyError
  | GeneratorCallError
  | EmptyResponse
  | JsonSyntaxError
  | ZodError
  | RangeError

text \<open>
  A \<open>PDFDocument\<close> of pdf-lib, as far as the handler uses it: its pages, in order. The
  page type is a parameter. Decoding (\<open>load\<close>) and encoding (\<open>save\<close>) belong to the
  library and are parameters of the model.
\<close>

record 'p pdf_document =
  pages :: "'p list"

definition getPageCount :: "'p pdf_document \<Rightarrow> nat" where
  "getPageCount doc = length (pages doc)"

definition create :: "'p pdf_document" where
  "create = \<lparr>pages = []\<rparr>"

definition copyPages :: "'p pdf_document \<Rightarrow> nat list \<Rightarrow> error + 'p list" where
  "copyPages doc indices =
     (if list_all (\<lambda>i. i < length (pages doc)) indices
      then Inr (map (\<lambda>i. pages doc ! i) indices)
      else Inl PdfCopyError)"

definition addPage :: "'p \<Rightarrow> 'p pdf_document \<Rightarrow> 'p pdf_document" where
  "addPage p doc = doc\<lparr>pages := pages doc @ [p]\<rparr>"

section \<open>Splitting (route.ts, lines 43-56)\<close>

text \<open>
  The \<^verbatim>\<open>for\<close> loop of \<open>splitPdf\<close>, with the loop variable \<open>start\<close> and the array
  \<open>chunks\<close> as arguments. \<open>totalPages\<close> is the variable of the enclosing handler.
  \<^verbatim>\<open>Array.from({ length: end - start }, (_, i) => i + start)\<close> is the list of
  indices; inside the loop \<open>start < end\<close>, so the subtraction is the source's. The
  loop does not return when \<open>chunkSize\<close> is 0 and there is a page: the result \<open>None\<close>.
\<close>

partial_function (option) splitPdf_loop ::
  "('p pdf_document \<Rightarrow> buffer) \<Rightarrow> nat \<Rightarrow> 'p pdf_document \<Rightarrow> nat \<Rightarrow> nat \<Rightarrow> buffer list
     \<Rightarrow> (error + buffer list) option" where
  "splitPdf_loop save totalPages doc chunkSize start chunks =
     (if start < totalPages then
        (let end' = min (start + chunkSize) totalPages;
             newDoc = create
         in case copyPages doc (map (\<lambda>i. i + start) [0..<end' - start]) of
              Inl e \<Rightarrow> Some (Inl e)
            | Inr ps \<Rightarrow>
                splitPdf_loop save totalPages doc chunkSize (start + chunkSize)
                  (chunks @ [save (foldl (\<lambda>d p. addPage p d) newDoc ps)]))
      else Some (Inr chunks))"

definition splitPdf ::
  "('p pdf_document \<Rightarrow> buffer) \<Rightarrow> nat \<Rightarrow> 'p pdf_document \<Rightarrow> nat
     \<Rightarrow> (error + buffer list) option" where
  "splitPdf save totalPages doc chunkSize = splitPdf_loop save totalPages doc chunkSize 0 []"

text \<open>
  Line 56, with the default \<open>chunkSize = 100\<close> of the call \<^verbatim>\<open>splitPdf(masterDoc)\<close>:
  \<^verbatim>\<open>totalPages > 500 ? await splitPdf(masterDoc) : [pdfBuffer]\<close>
\<close>

definition pdfBuffers ::
  "('p pdf_document \<Rightarrow> buffer) \<Rightarrow> buffer \<Rightarrow> 'p pdf_document \<Rightarrow> (error + buffer list) option" where
  "pdfBuffers save pdfBuffer masterDoc =
     (let totalPages = getPageCount masterDoc
      in if totalPages > 500 then splitPdf save totalPages masterDoc 100
         else Some (Inr [pdfBuffer]))"

section \<open>The generator adapter (actions.ts)\<close>

text \<open>
  A value returned by \<^verbatim>\<open>JSON.parse\<close>. An object is the list of its own properties;
  reading a property is \<open>map_of\<close>, and \<open>None\<close> is \<^verbatim>\<open>undefined\<close>.
\<close>

datatype json =
    JNull
  | JBool bool
  | JNumber real
  | JString jsstring
  | JArray "json list"
  | JObject "(jsstring \<times> json) list"

text \<open>
  The zod schemas of lines 7-11. \<^verbatim>\<open>z.string()\<close> accepts a string and nothing else.
  \<^verbatim>\<open>z.object({...})\<close> accepts an object, parses the property of each key of its shape
  and returns an object with the keys of the shape only: a key that the shape does not
  name is dropped, the default of zod (no \<^verbatim>\<open>.strict()\<close> in the source).
  \<^verbatim>\<open>z.array(el)\<close> accepts an array whose elements all parse. \<open>None\<close> is a thrown
  \<open>ZodError\<close>.
\<close>

definition z_string :: "json option \<Rightarrow> jsstring option" where
  "z_string v = (case v of Some (JString s) \<Rightarrow> Some s | _ \<Rightarrow> None)"

definition FlashCardSchema :: "json option \<Rightarrow> card option" where
  "FlashCardSchema v =
     (case v of
        Some (JObject props) \<Rightarrow>
          (case z_string (map_of props (lit ''question'')) of
             None \<Rightarrow> None
           | Some q \<Rightarrow>
               (case z_string (map_of props (lit ''answer'')) of
                  None \<Rightarrow> None
                | Some a \<Rightarrow> Some \<lparr>question = q, answer = a\<rparr>))
      | _ \<Rightarrow> None)"

definition z_array :: "(json option \<Rightarrow> 'a option) \<Rightarrow> json option \<Rightarrow> 'a list option" where
  "z_array el v =
     (case v of Some (JArray vs) \<Rightarrow> those (map (\<lambda>x. el (Some x)) vs) | _ \<Rightarrow> None)"

record flashcards_array =
  flashcard :: "card list"

definition FlashCardsArray :: "json option \<Rightarrow> flashcards_array option" where
  "FlashCardsArray v =
     (case v of
        Some (JObject props) \<Rightarrow>
          (case z_array FlashCardSchema (map_of props (lit ''flashcard'')) of
             None \<Rightarrow> None
           | Some cs \<Rightarrow> Some \<lparr>flashcard = cs\<rparr>)
      | _ \<Rightarrow> None)"

text \<open>
  The outside world of one request: the PDF library, the Gemini call and
  \<^verbatim>\<open>JSON.parse\<close>. The Gemini call is given the PDF (the request built from it in
  lines 50-72 is a fixed function of the PDF) and a state \<open>'s\<close> of the service; it
  rejects, or responds with \<^verbatim>\<open>response.text\<close>, which may be \<^verbatim>\<open>undefined\<close>.
  \<open>max_arguments\<close> is the largest number of arguments that a call of the JavaScript
  engine takes where the handler runs; a call with more throws a \<open>RangeError\<close>.
\<close>

record ('p, 's) env =
  load :: "buffer \<Rightarrow> 'p pdf_document option"
  save :: "'p pdf_document \<Rightarrow> buffer"
  generateContent :: "'s \<Rightarrow> buffer \<Rightarrow> (error + jsstring option) \<times> 's"
  JSON_parse :: "jsstring \<Rightarrow> json option"
  max_arguments :: nat

text \<open>
  \<open>generateFlashCardsFromPDF\<close>, lines 99-114: \<^verbatim>\<open>!jsonText\<close> holds of
  \<^verbatim>\<open>undefined\<close> and of the empty string.
\<close>

definition generateFlashCardsFromPDF ::
  "('p, 's) env \<Rightarrow> 's \<Rightarrow> buffer \<Rightarrow> (error + card list) \<times> 's" where
  "generateFlashCardsFromPDF ev s pdf =
     (case generateContent ev s pdf of
        (Inl e, s') \<Rightarrow> (Inl e, s')
      | (Inr jsonText, s') \<Rightarrow>
          (case jsonText of
             None \<Rightarrow> (Inl EmptyResponse, s')
           | Some t \<Rightarrow>
               (if t = [] then (Inl EmptyResponse, s')
                else
                  (case JSON_parse ev t of
                     None \<Rightarrow> (Inl JsonSyntaxError, s')
                   | Some j \<Rightarrow>
                       (case FlashCardsArray (Some j) of
                          None \<Rightarrow> (Inl ZodError, s')
                        | Some r \<Rightarrow> (Inr (flashcard r), s'))))))"

section \<open>The request handler (route.ts)\<close>

text \<open>
  The loop of lines 62-66 over \<open>pdfBuffers\<close>, with \<open>allCards\<close> and the state of the
  generator as arguments. A rejected call leaves the loop, and the handler, at once.
  \<^verbatim>\<open>allCards.push(...cards)\<close> spreads the batch into the arguments of one call of
  \<open>push\<close>: with more than \<open>max_args\<close> cards the call throws, which leaves the loop
  as well; otherwise the cards are appended in their order.
\<close>

fun aggregate ::
  "nat \<Rightarrow> ('s \<Rightarrow> buffer \<Rightarrow> (error + card list) \<times> 's) \<Rightarrow> 's \<Rightarrow> card list \<Rightarrow> buffer list
     \<Rightarrow> (error + card list) \<times> 's" where
  "aggregate max_args generate s allCards [] = (Inr allCards, s)"
| "aggregate max_args generate s allCards (buf # bufs) =
     (case generate s buf of
        (Inl e, s') \<Rightarrow> (Inl e, s')
      | (Inr cards, s') \<Rightarrow>
          (if max_args < length cards then (Inl RangeError, s')
           else aggregate max_args generate s' (allCards @ cards) bufs))"

text \<open>
  A request is its form data, if the body is form data: the list of the fields in order,
  a field being a string or a file. \<^verbatim>\<open>formData.get("file")\<close> is the first field of
  that name, or \<^verbatim>\<open>null\<close>.
\<close>

datatype form_value = FormString jsstring | FormFile buffer

record request =
  formData :: "(jsstring \<times> form_value) list option"

record response =
  status :: nat
  headers :: "(string \<times> string) list"
  body :: jsstring

definition missing_file_response :: response where
  \<open>missing_file_response =
     \<lparr>status = 400,
      headers = [(''Content-Type'', ''application/json'')],
      body = lit ''{"error":"Missing PDF in form'' @ [0x2011] @
             lit ''data under field 'file'."}''\<rparr>\<close>

definition csv_response :: "jsstring \<Rightarrow> response" where
  "csv_response text =
     \<lparr>status = 200,
      headers = [(''Content-Type'', ''text/csv; charset=utf-8''),
                 (''Content-Disposition'', ''attachment; filename=flashcards.csv'')],
      body = text\<rparr>"

text \<open>
  \<open>POST\<close>: \<open>Some (Inr r, s)\<close> when the handler returns the response \<open>r\<close>,
  \<open>Some (Inl e, s)\<close> when the exception \<open>e\<close> leaves it (nothing in the source catches
  one), \<open>None\<close> when it does not return; \<open>s\<close> is the state of the generator afterwards.
\<close>

definition POST ::
  "('p, 's) env \<Rightarrow> 's \<Rightarrow> request \<Rightarrow> ((error + response) \<times> 's) option" where
  "POST ev s req =
     (case formData req of
        None \<Rightarrow> Some (Inl FormDataError, s)
      | Some fd \<Rightarrow>
          (case map_of fd (lit ''file'') of
             Some (FormFile arrayBuffer) \<Rightarrow>
               (case load ev arrayBuffer of
                  None \<Rightarrow> Some (Inl PdfLoadError, s)
                | Some masterDoc \<Rightarrow>
                    (case pdfBuffers (save ev) arrayBuffer masterDoc of
                       None \<Rightarrow> None
                     | Some (Inl e) \<Rightarrow> Some (Inl e, s)
                     | Some (Inr bufs) \<Rightarrow>
                         (case aggregate (max_arguments ev) (generateFlashCardsFromPDF ev) s []
                                 bufs of
                            (Inl e, s') \<Rightarrow> Some (Inl e, s')
                          | (Inr allCards, s') \<Rightarrow> Some (Inr (csv_response (csv allCards)), s'))))
           | _ \<Rightarrow> Some (Inr missing_file_response, s)))"

text \<open>
  Observing the calls: \<open>traced g\<close> behaves as \<open>g\<close> and appends the argument of every
  call to a log kept beside the state of \<open>g\<close>.
\<close>

definition traced ::
  "('s \<Rightarrow> buffer \<Rightarrow> 'r \<times> 's) \<Rightarrow> 's \<times> buffer list \<Rightarrow> buffer \<Rightarrow> 'r \<times> ('s \<times> buffer list)" where
  "traced g = (\<lambda>(s, calls) buf. case g s buf of (r, s') \<Rightarrow> (r, (s', calls @ [buf])))"

definition traced_env :: "('p, 's) env \<Rightarrow> ('p, 's \<times> buffer list) env" where
  "traced_env ev =
     \<lparr>load = load ev, save = save ev,
      generateContent = traced (generateContent ev),
      JSON_parse = JSON_parse ev, max_arguments = max_arguments ev\<rparr>"

section \<open>Notions of the specification\<close>

text \<open>The text after a closing quote: empty, or beginning with another character.\<close>

definition no_quote_first :: "jsstring \<Rightarrow> bool" where
  "no_quote_first r = (case r of [] \<Rightarrow> True | c # _ \<Rightarrow> c \<noteq> dquote)"

text \<open>
  The partition of the page range \<open>[0, n)\<close> into consecutive ranges of \<open>c\<close> pages,
  the last one ending at \<open>n\<close>: the range number \<open>k\<close> is \<open>[k * c, min ((k + 1) * c) n)\<close>,
  and there are \<open>\<lceil>n / c\<rceil>\<close> of them.
\<close>

definition chunk_ranges :: "nat \<Rightarrow> nat \<Rightarrow> (nat \<times> nat) list" where
  "chunk_ranges n c = map (\<lambda>k. (k * c, min ((k + 1) * c) n)) [0..<(n + c - 1) div c]"

text \<open>The pages \<open>[a, b)\<close> of a document as a document of their own, in page order.\<close>

definition extractRange :: "'p pdf_document \<Rightarrow> nat \<times> nat \<Rightarrow> 'p pdf_document" where
  "extractRange doc r = \<lparr>pages = take (snd r - fst r) (drop (fst r) (pages doc))\<rparr>"

text \<open>
  What the generator answers when it is called once on each chunk, in order, each call
  starting in the state the previous one left; and the state after these calls.
\<close>

fun replies :: "('s \<Rightarrow> buffer \<Rightarrow> 'r \<times> 's) \<Rightarrow> 's \<Rightarrow> buffer list \<Rightarrow> 'r list" where
  "replies g s [] = []"
| "replies g s (b # bs) = fst (g s b) # replies g (snd (g s b)) bs"

fun final_state :: "('s \<Rightarrow> buffer \<Rightarrow> 'r \<times> 's) \<Rightarrow> 's \<Rightarrow> buffer list \<Rightarrow> 's" where
  "final_state g s [] = s"
| "final_state g s (b # bs) = final_state g (snd (g s b)) bs"

definition batches :: "(error + card list) list \<Rightarrow> card list list" where
  "batches rs = map (\<lambda>r. case r of Inl e \<Rightarrow> [] | Inr cs \<Rightarrow> cs) rs"

text \<open>A call of the generator that returned a batch.\<close>

definition succeeded :: "error + 'a \<Rightarrow> bool" where
  "succeeded r = (case r of Inl e \<Rightarrow> False | Inr x \<Rightarrow> True)"

text \<open>
  A call that returned a batch which \<open>push\<close> takes: at most \<open>cap\<close> cards. The first
  chunk at which the loop stops is the first whose call fails or whose batch is too
  large, and the error is the one of the call, or the \<open>RangeError\<close> of \<open>push\<close>.
\<close>

definition pushed :: "nat \<Rightarrow> error + 'a list \<Rightarrow> bool" where
  "pushed cap r = (case r of Inl e \<Rightarrow> False | Inr cs \<Rightarrow> length cs \<le> cap)"

definition first_failure :: "nat \<Rightarrow> (error + 'a list) list \<Rightarrow> nat" where
  "first_failure cap rs = length (takeWhile (pushed cap) rs)"

definition failure_error :: "error + 'a list \<Rightarrow> error" where
  "failure_error r = (case r of Inl e \<Rightarrow> e | Inr cs \<Rightarrow> RangeError)"




text \<open>The handler answers with a response of status 400 whose body is declared JSON.\<close>

definition rejected_400 :: "((error + response) \<times> 's) option \<Rightarrow> bool" where
  "rejected_400 out =
     (case out of
        Some (Inr r, s) \<Rightarrow>
          status r = 400 \<and> map_of (headers r) ''Content-Type'' = Some ''application/json''
      | _ \<Rightarrow> False)"

text \<open>
  Example surroundings, to run the handler on concrete requests: pages are numbers, a
  document is encoded as the list of its page numbers and decoded accordingly, the
  state of the service counts the calls made so far, and the call number
  \<open>fail_at\<close> (from 0) is rejected; every other call responds with one card whose
  answer is the number of the call; a call of the engine takes at most 125000 arguments.
  \<open>never_pdf\<close> is a library for which no upload is a PDF.
\<close>

definition example_save :: "nat pdf_document \<Rightarrow> buffer" where
  "example_save doc = map of_nat (pages doc)"

definition example_load :: "buffer \<Rightarrow> nat pdf_document option" where
  "example_load b = Some \<lparr>pages = map unat b\<rparr>"

definition example_text :: "nat \<Rightarrow> jsstring" where
  "example_text n = [of_nat n + 0x30]"

definition example_json :: "jsstring \<Rightarrow> json option" where
  "example_json t =
     Some (JObject [(lit ''flashcard'',
       JArray [JObject [(lit ''question'', JString (lit ''q'')), (lit ''answer'', JString t)]])])"

definition example_env :: "nat \<Rightarrow> (nat, nat) env" where
  "example_env fail_at =
     \<lparr>load = example_load, save = example_save,
      generateContent =
        (\<lambda>n pdf. (if n = fail_at then Inl GeneratorCallError else Inr (Some (example_text n)),
                   Suc n)),
      JSON_parse = example_json, max_arguments = 125000\<rparr>"

definition never_pdf :: "(nat, nat) env" where
  "never_pdf = (example_env 0)\<lparr>load := (\<lambda>b. None)\<rparr>"

text \<open>
  A generator that answers every call with a batch of 130000 cards; a response whose
  record carries a third field; an upload of 650 pages.
\<close>

definition bulk_generator :: "nat \<Rightarrow> buffer \<Rightarrow> (error + card list) \<times> nat" where
  "bulk_generator n b =
     (Inr (replicate 130000 \<lparr>question = lit ''q'', answer = lit ''a''\<rparr>), Suc n)"


definition upload650 :: buffer where
  "upload650 = replicate 650 7"

section \<open>Properties of the serialiser\<close>

lemma dquote_neq_comma: "dquote \<noteq> comma"
  by (simp add: dquote_def comma_def)

lemma dquote_neq_newline: "dquote \<noteq> newline"
  by (simp add: dquote_def newline_def)




lemma escape_no_quote: "dquote \<notin> set s \<Longrightarrow> escape s = s"
  by (induction s) auto

lemma join_Cons: "join sep (x # xs) = x @ (if xs = [] then [] else sep @ join sep xs)"
  by (cases xs) simp_all

lemma csv_Nil: "csv [] = []"
  by (simp add: csv_def)

lemma csv_Cons:
  "csv (c # cs) = csv_row c @ (if cs = [] then [] else newline # csv cs)"
  by (simp add: csv_def join_Cons)


lemma csv_row_hd: "hd (csv_row c) = dquote"
  by (simp add: csv_row_def)

lemma csv_row_not_Nil: "csv_row c \<noteq> []"
  by (simp add: csv_row_def)



lemma csv_snoc:
  "cs \<noteq> [] \<Longrightarrow> csv (cs @ [c]) = csv cs @ [newline] @ csv_row c"
proof (induction cs)
  case Nil
  then show ?case by simp
next
  case (Cons d ds)
  show ?case
  proof (cases "ds = []")
    case True
    then show ?thesis by (simp add: csv_Cons csv_Nil)
  next
    case False
    with Cons.IH have "csv (ds @ [c]) = csv ds @ [newline] @ csv_row c" by simp
    with False show ?thesis by (simp add: csv_Cons)
  qed
qed

subsection \<open>Unique decodability\<close>

text \<open>
  An escaped field followed by its closing quote determines the field, provided that
  what follows the closing quote does not itself begin with a quote.
\<close>

lemma escape_field_inj:
  assumes "escape q @ dquote # r = escape q' @ dquote # r'"
    and "no_quote_first r" and "no_quote_first r'"
  shows "q = q' \<and> r = r'"
  using assms
proof (induction q arbitrary: q')
  case Nil
  then show ?case
    by (cases q') (auto simp: no_quote_first_def split: if_splits)
next
  case (Cons c cs)
  show ?case
  proof (cases q')
    case Nil
    with Cons.prems show ?thesis
      by (auto simp: no_quote_first_def split: if_splits)
  next
    case (Cons c' cs')
    from Cons.prems(1) have "c = c' \<and> escape cs @ dquote # r = escape cs' @ dquote # r'"
      unfolding Cons by (auto split: if_splits)
    with Cons.IH [of cs'] Cons.prems(2,3) show ?thesis
      unfolding Cons by simp
  qed
qed

lemma csv_row_inj:
  assumes "csv_row c @ t = csv_row c' @ t'"
    and "no_quote_first t" and "no_quote_first t'"
  shows "c = c' \<and> t = t'"
proof -
  let ?r = "comma # dquote # escape (answer c) @ dquote # t"
  let ?r' = "comma # dquote # escape (answer c') @ dquote # t'"
  from assms(1) have "escape (question c) @ dquote # ?r = escape (question c') @ dquote # ?r'"
    by (simp add: csv_row_def)
  moreover have "no_quote_first ?r" "no_quote_first ?r'"
    using dquote_neq_comma by (auto simp: no_quote_first_def)
  ultimately have q: "question c = question c'" and "?r = ?r'"
    using escape_field_inj by blast+
  then have a: "escape (answer c) @ dquote # t = escape (answer c') @ dquote # t'"
    by simp
  have "answer c = answer c' \<and> t = t'"
    using a assms(2,3) by (rule escape_field_inj)
  with q show ?thesis by simp
qed

lemma csv_tail_no_quote_first:
  "no_quote_first (if cs = [] then [] else newline # csv cs)"
  using dquote_neq_newline by (auto simp: no_quote_first_def)

lemma csv_inj: "csv xs = csv ys \<Longrightarrow> xs = ys"
proof (induction xs arbitrary: ys)
  case Nil
  then show ?case
    by (cases ys) (simp_all add: csv_Nil csv_Cons csv_row_not_Nil)
next
  case (Cons x xs)
  show ?case
  proof (cases ys)
    case Nil
    with Cons.prems show ?thesis
      by (simp add: csv_Nil csv_Cons csv_row_not_Nil)
  next
    case (Cons y ys')
    let ?t = "if xs = [] then [] else newline # csv xs"
    let ?t' = "if ys' = [] then [] else newline # csv ys'"
    from Cons.prems have "csv_row x @ ?t = csv_row y @ ?t'"
      unfolding Cons by (simp only: csv_Cons)
    then have xy: "x = y" and t: "?t = ?t'"
      using csv_row_inj [OF _ csv_tail_no_quote_first csv_tail_no_quote_first] by blast+
    have "csv xs = csv ys'"
    proof (cases "xs = []")
      case True
      with t have "ys' = []" by (auto split: if_splits)
      with True show ?thesis by simp
    next
      case False
      with t have "ys' \<noteq> []" by (auto split: if_splits)
      with False t show ?thesis by simp
    qed
    with Cons.IH have "xs = ys'" by simp
    with xy show ?thesis unfolding Cons by simp
  qed
qed







lemma csv_empty_fields_example: \<open>csv [\<lparr>question = [], answer = []\<rparr>] = lit ''"",""''\<close>
  by (simp add: csv_def csv_row_def lit_def dquote_def comma_def)

section \<open>Properties of the splitter\<close>

lemma foldl_addPage: "foldl (\<lambda>d p. addPage p d) d ps = d\<lparr>pages := pages d @ ps\<rparr>"
  by (induction ps arbitrary: d) (simp_all add: addPage_def)

lemma build_doc: "foldl (\<lambda>d p. addPage p d) create ps = \<lparr>pages = ps\<rparr>"
  by (simp add: foldl_addPage create_def)

lemma copyPages_range:
  assumes "a \<le> b" and "b \<le> length (pages doc)"
  shows "copyPages doc (map (\<lambda>i. i + a) [0..<b - a]) = Inr (take (b - a) (drop a (pages doc)))"
proof -
  have "list_all (\<lambda>i. i < length (pages doc)) (map (\<lambda>i. i + a) [0..<b - a])"
    using assms by (auto simp: list_all_iff)
  moreover have "map (\<lambda>i. pages doc ! i) (map (\<lambda>i. i + a) [0..<b - a]) = take (b - a) (drop a (pages doc))"
    using assms by (auto simp: list_eq_iff_nth_eq add.commute)
  ultimately show ?thesis by (simp add: copyPages_def)
qed

lemma lt_ceil_div: "0 < c \<Longrightarrow> (k * c < n) = (k < (n + c - 1) div c)" for c k n :: nat
proof -
  assume c: "0 < c"
  have "(k < (n + c - 1) div c) = (Suc k \<le> (n + c - 1) div c)" by auto
  also have "\<dots> = (Suc k * c \<le> n + c - 1)" using c by (simp add: less_eq_div_iff_mult_less_eq)
  also have "\<dots> = (k * c < n)" using c by auto
  finally show ?thesis by simp
qed

lemma ceil_div_cases:
  fixes c n :: nat
  assumes c: "0 < c"
  shows "(n + c - 1) div c = (if n mod c = 0 then n div c else Suc (n div c))"
proof -
  let ?m = "(n + c - 1) div c"
  let ?x = "if n mod c = 0 then n div c else Suc (n div c)"
  have dm: "n div c * c + n mod c = n" by simp
  have r: "n mod c < c" using c by simp
  have "(k * c < n) = (k < ?x)" for k
  proof (cases "n mod c = 0")
    case True
    with dm have "n = n div c * c" by simp
    then have "(k * c < n) = (k * c < n div c * c)" by simp
    also have "\<dots> = (k < n div c)" using c by simp
    finally show ?thesis using True by simp
  next
    case False
    show ?thesis
    proof (cases "k \<le> n div c")
      case True
      then have "k * c \<le> n div c * c" by simp
      with dm False have "k * c < n" by linarith
      with True False show ?thesis by simp
    next
      case False
      then have "Suc (n div c) \<le> k" by simp
      then have "Suc (n div c) * c \<le> k * c" by (rule mult_le_mono1)
      then have "c + n div c * c \<le> k * c" by simp
      with dm r have "\<not> k * c < n" by linarith
      with False show ?thesis by simp
    qed
  qed
  then have e: "(k < ?m) = (k < ?x)" for k using lt_ceil_div [OF c, of k n] by simp
  from e [of ?m] e [of ?x] show ?thesis by (simp only: less_irrefl) arith
qed

lemma splitPdf_loop_from:
  assumes c: "0 < c" and tp: "tp \<le> length (pages doc)"
  shows "splitPdf_loop sv tp doc c (k * c) chunks =
     Some (Inr (chunks @ map (\<lambda>r. sv (extractRange doc r))
                  (map (\<lambda>j. (j * c, min ((j + 1) * c) tp)) [k..<(tp + c - 1) div c])))"
proof (induction "(tp + c - 1) div c - k" arbitrary: k chunks)
  case 0
  then have "\<not> k < (tp + c - 1) div c" by simp
  with c have "\<not> k * c < tp" by (simp add: lt_ceil_div)
  moreover from 0 have "[k..<(tp + c - 1) div c] = []" by simp
  ultimately show ?case by (subst splitPdf_loop.simps) simp
next
  case (Suc m)
  then have lt: "k < (tp + c - 1) div c" by simp
  with c have kc: "k * c < tp" by (simp add: lt_ceil_div)
  let ?e = "min (k * c + c) tp"
  have cp: "copyPages doc (map (\<lambda>i. i + k * c) [0..<?e - k * c]) =
        Inr (take (?e - k * c) (drop (k * c) (pages doc)))"
    using kc tp by (intro copyPages_range) auto
  from Suc have m: "m = (tp + c - 1) div c - Suc k" by simp
  have next_start: "k * c + c = Suc k * c" by simp
  have "splitPdf_loop sv tp doc c (k * c) chunks =
        splitPdf_loop sv tp doc c (k * c + c)
          (chunks @ [sv \<lparr>pages = take (?e - k * c) (drop (k * c) (pages doc))\<rparr>])"
    by (subst splitPdf_loop.simps) (simp add: kc cp build_doc Let_def del: mult_Suc)
  also have "\<dots> = splitPdf_loop sv tp doc c (Suc k * c)
          (chunks @ [sv \<lparr>pages = take (?e - k * c) (drop (k * c) (pages doc))\<rparr>])"
    by (simp only: next_start)
  also note Suc.hyps(1) [OF m]
  finally show ?case
    using lt by (simp add: upt_conv_Cons extractRange_def next_start del: mult_Suc)
qed


lemma ceil_mult_ge: "0 < c \<Longrightarrow> n \<le> ((n + c - 1) div c) * c" for c n :: nat
proof -
  assume c: "0 < c"
  have "\<not> ((n + c - 1) div c) * c < n"
    using lt_ceil_div [OF c, of "(n + c - 1) div c" n] by simp
  then show ?thesis by simp
qed

lemma splitPdf_ranges:
  assumes "0 < c"
  shows "splitPdf sv (length (pages doc)) doc c =
     Some (Inr (map (\<lambda>r. sv (extractRange doc r)) (chunk_ranges (length (pages doc)) c)))"
  using splitPdf_loop_from [OF assms order_refl, of sv doc 0 "[]"]
  by (simp add: splitPdf_def chunk_ranges_def)

lemma length_chunk_ranges: "length (chunk_ranges n c) = (n + c - 1) div c"
  by (simp add: chunk_ranges_def)

lemma nth_chunk_ranges:
  "i < length (chunk_ranges n c) \<Longrightarrow> chunk_ranges n c ! i = (i * c, min ((i + 1) * c) n)"
  by (simp add: chunk_ranges_def)

lemma chunk_ranges_nonempty:
  assumes "0 < c" and "i < length (chunk_ranges n c)"
  shows "fst (chunk_ranges n c ! i) < snd (chunk_ranges n c ! i)"
proof -
  from assms have "i * c < n" by (simp add: lt_ceil_div length_chunk_ranges)
  with assms show ?thesis by (simp add: nth_chunk_ranges)
qed

lemma chunk_ranges_full:
  assumes "0 < c" and "Suc i < length (chunk_ranges n c)"
  shows "chunk_ranges n c ! i = (i * c, i * c + c)"
    and "snd (chunk_ranges n c ! i) = fst (chunk_ranges n c ! Suc i)"
proof -
  from assms have "Suc i * c < n" by (simp only: lt_ceil_div length_chunk_ranges)
  then have "i * c + c < n" by (simp add: add.commute)
  with assms show "chunk_ranges n c ! i = (i * c, i * c + c)"
    by (simp add: nth_chunk_ranges add.commute)
  with assms show "snd (chunk_ranges n c ! i) = fst (chunk_ranges n c ! Suc i)"
    by (simp add: nth_chunk_ranges add.commute)
qed

lemma chunk_ranges_ordered:
  assumes "i < j" and "j < length (chunk_ranges n c)"
  shows "snd (chunk_ranges n c ! i) \<le> fst (chunk_ranges n c ! j)"
proof -
  from assms(1) have "Suc i \<le> j" by simp
  then have "Suc i * c \<le> j * c" by (rule mult_le_mono1)
  with assms show ?thesis by (simp add: nth_chunk_ranges)
qed

lemma chunk_ranges_last:
  assumes c: "0 < c" and n: "0 < n"
  shows "chunk_ranges n c \<noteq> []"
    and "fst (hd (chunk_ranges n c)) = 0"
    and "snd (last (chunk_ranges n c)) = n"
    and "snd (last (chunk_ranges n c)) - fst (last (chunk_ranges n c)) =
           (if n mod c = 0 then c else n mod c)"
proof -
  let ?m = "(n + c - 1) div c"
  from c n have m: "0 < ?m" using lt_ceil_div [OF c, of 0 n] by simp
  then show ne: "chunk_ranges n c \<noteq> []" by (simp add: chunk_ranges_def)
  from ne show "fst (hd (chunk_ranges n c)) = 0"
    using nth_chunk_ranges [of 0 n c] by (simp add: hd_conv_nth)
  from m have l: "last (chunk_ranges n c) = ((?m - 1) * c, min (?m * c) n)"
    using nth_chunk_ranges [of "?m - 1" n c] ne
    by (simp add: last_conv_nth length_chunk_ranges)
  have ge: "n \<le> ?m * c" using c by (rule ceil_mult_ge)
  with l show sl: "snd (last (chunk_ranges n c)) = n" by simp
  from l have fl: "fst (last (chunk_ranges n c)) = (?m - 1) * c" by simp
  have dm: "n div c * c + n mod c = n" by simp
  have "n - (?m - 1) * c = (if n mod c = 0 then c else n mod c)"
  proof (cases "n mod c = 0")
    case True
    have mq: "?m = n div c" using ceil_div_cases [OF c, of n] True by simp
    from True dm have nq: "n = n div c * c" by simp
    from m mq have "(n div c - 1) * c + c = n div c * c"
      by (cases "n div c") simp_all
    with nq have "n - (n div c - 1) * c = c" by linarith
    with mq have "n - (?m - 1) * c = c" by (simp only:)
    with True show ?thesis by simp
  next
    case False
    have mq: "?m = Suc (n div c)" using ceil_div_cases [OF c, of n] False by simp
    from dm have "n - n div c * c = n mod c" by linarith
    with mq False show ?thesis by simp
  qed
  with sl fl show "snd (last (chunk_ranges n c)) - fst (last (chunk_ranges n c)) =
           (if n mod c = 0 then c else n mod c)"
    by (simp only:)
qed

lemma concat_chunk_ranges_upto:
  "concat (map (\<lambda>k. [k * c..<min ((k + 1) * c) n]) [0..<m]) = [0..<min (m * c) n]"
proof (induction m)
  case 0
  then show ?case by simp
next
  case (Suc m)
  have "[0..<min (m * c) n] @ [m * c..<min (Suc m * c) n] = [0..<min (Suc m * c) n]"
  proof (cases "m * c \<le> n")
    case True
    then have "m * c \<le> min (Suc m * c) n" by simp
    then have "[0..<min (Suc m * c) n] = [0..<m * c] @ [m * c..<min (Suc m * c) n]"
      by (metis le0 upt_add_eq_append le_add_diff_inverse)
    with True show ?thesis by (simp add: min_absorb1)
  next
    case False
    then show ?thesis by (simp add: min_absorb2)
  qed
  with Suc show ?case by simp
qed

lemma concat_chunk_ranges:
  assumes "0 < c"
  shows "concat (map (\<lambda>r. [fst r..<snd r]) (chunk_ranges n c)) = [0..<n]"
proof -
  have "concat (map (\<lambda>r. [fst r..<snd r]) (chunk_ranges n c)) =
        [0..<min ((n + c - 1) div c * c) n]"
    using concat_chunk_ranges_upto [of c n "(n + c - 1) div c"]
    by (simp add: chunk_ranges_def comp_def)
  with ceil_mult_ge [OF assms, of n] show ?thesis by (simp add: min_absorb2)
qed

lemma concat_pages_upto:
  "concat (map (\<lambda>k. take (min ((k + 1) * c) (length xs) - k * c) (drop (k * c) xs)) [0..<m]) =
     take (m * c) xs"
proof (induction m)
  case 0
  then show ?case by simp
next
  case (Suc m)
  have "take (min (Suc m * c) (length xs) - m * c) (drop (m * c) xs) = take c (drop (m * c) xs)"
    by (rule nth_equalityI) auto
  moreover have "take (Suc m * c) xs = take (m * c) xs @ take c (drop (m * c) xs)"
    using take_add [of "m * c" c xs] by (simp add: add.commute)
  ultimately show ?case using Suc by simp
qed

lemma concat_extractRange:
  assumes "0 < c"
  shows "concat (map (\<lambda>r. pages (extractRange doc r)) (chunk_ranges (length (pages doc)) c)) =
           pages doc"
proof -
  have "concat (map (\<lambda>r. pages (extractRange doc r)) (chunk_ranges (length (pages doc)) c)) =
        take ((length (pages doc) + c - 1) div c * c) (pages doc)"
    using concat_pages_upto [of c "pages doc" "(length (pages doc) + c - 1) div c"]
    by (simp add: chunk_ranges_def extractRange_def comp_def)
  with ceil_mult_ge [OF assms, of "length (pages doc)"] show ?thesis by simp
qed

lemma sum_extractRange:
  assumes "0 < c"
  shows "sum_list (map (\<lambda>r. getPageCount (extractRange doc r))
           (chunk_ranges (getPageCount doc) c)) = getPageCount doc"
proof -
  have "sum_list (map (\<lambda>r. getPageCount (extractRange doc r))
           (chunk_ranges (getPageCount doc) c)) =
        length (concat (map (\<lambda>r. pages (extractRange doc r))
           (chunk_ranges (length (pages doc)) c)))"
    by (simp add: length_concat getPageCount_def comp_def)
  with concat_extractRange [OF assms, of doc] show ?thesis by (simp add: getPageCount_def)
qed

lemma getPageCount_extractRange:
  assumes "0 < c" and "i < length (chunk_ranges (getPageCount doc) c)"
  shows "getPageCount (extractRange doc (chunk_ranges (getPageCount doc) c ! i)) =
         snd (chunk_ranges (getPageCount doc) c ! i) - fst (chunk_ranges (getPageCount doc) c ! i)"
  using assms by (auto simp: nth_chunk_ranges getPageCount_def extractRange_def)

section \<open>Properties of the handler\<close>

lemma load_traced_env: "load (traced_env ev) = load ev"
  and save_traced_env: "save (traced_env ev) = save ev"
  and max_arguments_traced_env: "max_arguments (traced_env ev) = max_arguments ev"
  by (simp_all add: traced_env_def)

lemma generate_traced_env:
  fixes ev :: "('p, 's) env"
  shows "generateFlashCardsFromPDF (traced_env ev) = traced (generateFlashCardsFromPDF ev)"
proof (intro ext)
  fix st :: "'s \<times> buffer list" and pdf
  obtain s calls where st: "st = (s, calls)" by (cases st)
  obtain r s' where g: "generateContent ev s pdf = (r, s')" by (cases "generateContent ev s pdf")
  show "generateFlashCardsFromPDF (traced_env ev) st pdf = traced (generateFlashCardsFromPDF ev) st pdf"
    unfolding st
    by (simp add: generateFlashCardsFromPDF_def traced_env_def traced_def g
        split: sum.splits option.splits prod.splits)
qed

lemma POST_file:
  assumes "map_of fd (lit ''file'') = Some (FormFile buf)"
    and "load ev buf = Some doc"
    and "pdfBuffers (save ev) buf doc = Some (Inr bufs)"
  shows "POST ev s \<lparr>formData = Some fd\<rparr> =
     (case aggregate (max_arguments ev) (generateFlashCardsFromPDF ev) s [] bufs of
        (Inl e, s') \<Rightarrow> Some (Inl e, s')
      | (Inr allCards, s') \<Rightarrow> Some (Inr (csv_response (csv allCards)), s'))"
  using assms by (simp add: POST_def)

lemma aggregate_single:
  "aggregate cap g s [] [b] =
     (case g s b of
        (Inl e, s') \<Rightarrow> (Inl e, s')
      | (Inr cards, s') \<Rightarrow> if cap < length cards then (Inl RangeError, s') else (Inr cards, s'))"
  by (cases "g s b") (auto split: sum.splits)

lemma pdfBuffers_small:
  "getPageCount masterDoc \<le> 500 \<Longrightarrow> pdfBuffers sv pdfBuffer masterDoc = Some (Inr [pdfBuffer])"
  by (simp add: pdfBuffers_def)

lemma pdfBuffers_large:
  "500 < getPageCount masterDoc \<Longrightarrow>
   pdfBuffers sv pdfBuffer masterDoc =
     Some (Inr (map (\<lambda>r. sv (extractRange masterDoc r)) (chunk_ranges (getPageCount masterDoc) 100)))"
  using splitPdf_ranges [of 100 sv masterDoc]
  by (simp add: pdfBuffers_def getPageCount_def)

lemma example_generate:
  "generateFlashCardsFromPDF (example_env k) n pdf =
     (if n = k then Inl GeneratorCallError
      else Inr [\<lparr>question = lit ''q'', answer = example_text n\<rparr>], Suc n)"
  by (simp add: generateFlashCardsFromPDF_def example_env_def example_json_def example_text_def
      FlashCardsArray_def z_array_def FlashCardSchema_def z_string_def lit_def)

lemma example_max_arguments: "max_arguments (example_env k) = 125000"
  by (simp add: example_env_def)

lemma length_replies: "length (replies g s bufs) = length bufs"
  by (induction bufs arbitrary: s) simp_all

lemma replies_traced: "replies (traced g) (s, calls) bufs = replies g s bufs"
  by (induction bufs arbitrary: s calls) (simp_all add: traced_def split: prod.splits)

lemma final_state_traced:
  "final_state (traced g) (s, calls) bufs = (final_state g s bufs, calls @ bufs)"
  by (induction bufs arbitrary: s calls) (simp_all add: traced_def split: prod.splits)

lemma pushed_succeeded: "pushed cap r \<Longrightarrow> succeeded r"
  by (cases r) (simp_all add: pushed_def succeeded_def)

lemma aggregate_ok:
  "list_all (pushed cap) (replies g s bufs) \<Longrightarrow>
   aggregate cap g s acc bufs =
     (Inr (acc @ concat (batches (replies g s bufs))), final_state g s bufs)"
proof (induction bufs arbitrary: s acc)
  case Nil
  then show ?case by (simp add: batches_def)
next
  case (Cons b bs)
  obtain r s' where g: "g s b = (r, s')" by (cases "g s b")
  with Cons.prems obtain cs where r: "r = Inr cs" and fit: "length cs \<le> cap"
    by (cases r) (simp_all add: pushed_def)
  from Cons.prems g have "list_all (pushed cap) (replies g s' bs)" by simp
  from Cons.IH [OF this, of "acc @ cs"] g r fit show ?case by (simp add: batches_def)
qed

lemma aggregate_fits_in_order:
  assumes "list_all (pushed cap) (replies g s bufs)"
  shows "aggregate cap (traced g) (s, []) [] bufs =
     (Inr (concat (batches (replies g s bufs))), (final_state g s bufs, bufs))"
proof -
  from assms have "list_all (pushed cap) (replies (traced g) (s, []) bufs)"
    by (simp only: replies_traced)
  from aggregate_ok [OF this, of "[]"] show ?thesis
    by (simp add: replies_traced final_state_traced)
qed

lemma aggregate_first_failure:
  "first_failure cap (replies g s bufs) < length bufs \<Longrightarrow>
   aggregate cap g s acc bufs =
     (Inl (failure_error (replies g s bufs ! first_failure cap (replies g s bufs))),
      final_state g s (take (Suc (first_failure cap (replies g s bufs))) bufs))"
proof (induction bufs arbitrary: s acc)
  case Nil
  then show ?case by simp
next
  case (Cons b bs)
  obtain r s' where g: "g s b = (r, s')" by (cases "g s b")
  show ?case
  proof (cases "pushed cap r")
    case True
    then obtain cs where r: "r = Inr cs" and fit: "length cs \<le> cap"
      by (cases r) (simp_all add: pushed_def)
    from True g have ff: "first_failure cap (replies g s (b # bs)) =
        Suc (first_failure cap (replies g s' bs))"
      by (simp add: first_failure_def)
    with Cons.prems have "first_failure cap (replies g s' bs) < length bs" by simp
    from Cons.IH [OF this, of "acc @ cs"] g r fit show ?thesis
      unfolding ff by simp
  next
    case False
    with g have ff: "first_failure cap (replies g s (b # bs)) = 0"
      by (simp add: first_failure_def)
    from False g show ?thesis
      unfolding ff by (cases r) (simp_all add: pushed_def failure_error_def)
  qed
qed

lemma first_failure_le:
  assumes "k < length rs" and "\<not> pushed cap (rs ! k)"
  shows "first_failure cap rs \<le> k"
proof (rule ccontr)
  assume "\<not> first_failure cap rs \<le> k"
  then have k: "k < length (takeWhile (pushed cap) rs)" by (simp add: first_failure_def)
  then have "takeWhile (pushed cap) rs ! k \<in> set (takeWhile (pushed cap) rs)" by simp
  then have "pushed cap (takeWhile (pushed cap) rs ! k)" by (rule set_takeWhileD [THEN conjunct2])
  with k assms(2) show False by (simp add: takeWhile_nth)
qed

lemma first_failure_eq:
  assumes "k < length rs" and "\<not> pushed cap (rs ! k)" and "list_all (pushed cap) (take k rs)"
  shows "first_failure cap rs = k"
proof -
  have "k \<le> length (takeWhile (pushed cap) rs)"
  proof (rule length_takeWhile_less_P_nth)
    fix i assume "i < k"
    with assms(1,3) show "pushed cap (rs ! i)" by (auto simp: list_all_length)
  next
    from assms(1) show "k \<le> length rs" by simp
  qed
  with first_failure_le [OF assms(1,2)] show ?thesis by (simp add: first_failure_def)
qed

lemma upload650_loaded:
  "load (example_env k) upload650 = Some \<lparr>pages = replicate 650 7\<rparr>"
  "getPageCount \<lparr>pages = replicate 650 (7::nat)\<rparr> = 650"
  by (simp_all add: example_env_def example_load_def upload650_def getPageCount_def)

lemma chunk_ranges_650:
  "chunk_ranges 650 100 =
     [(0, 100), (100, 200), (200, 300), (300, 400), (400, 500), (500, 600), (600, 650)]"
  by code_simp

lemma upload650_chunks:
  "pdfBuffers (save (example_env k)) upload650 \<lparr>pages = replicate 650 7\<rparr> =
     Some (Inr (map (\<lambda>r. example_save (extractRange \<lparr>pages = replicate 650 7\<rparr> r))
       [(0, 100), (100, 200), (200, 300), (300, 400), (400, 500), (500, 600), (600, 650)]))"
proof -
  have "500 < getPageCount \<lparr>pages = replicate 650 (7::nat)\<rparr>"
    by (simp add: upload650_loaded)
  from pdfBuffers_large [OF this, of "save (example_env k)" upload650]
  show ?thesis by (simp add: upload650_loaded chunk_ranges_650 example_env_def)
qed

section \<open>Properties of the adapter\<close>





section \<open>Main results\<close>

subsection \<open>Serialisation\<close>


text \<open>
  C10: the serialiser is injective on lists of cards: two lists have the same CSV text
  only if they are the same list (same length, same questions, same answers), whatever
  commas, quotes or newlines the fields contain.
\<close>

theorem csv_injective: "(csv xs = csv ys) = (xs = ys)"
  using csv_inj by blast

text \<open>
  C6: serialisation has no failing case. The empty list of cards gives the empty text,
  a card with an empty question and an empty answer gives \<open>"",""\<close>, and whatever
  the cards are that the loop has collected, the handler answers with status 200 and
  their CSV text as the body.
\<close>

theorem serialize_total:
  \<open>csv [] = [] \<and>
   csv [\<lparr>question = [], answer = []\<rparr>] = lit ''"",""'' \<and>
   (map_of fd (lit ''file'') = Some (FormFile buf) \<and> load ev buf = Some doc \<and>
    pdfBuffers (save ev) buf doc = Some (Inr bufs) \<and>
    aggregate (max_arguments ev) (generateFlashCardsFromPDF ev) s [] bufs = (Inr allCards, s') \<longrightarrow>
    POST ev s \<lparr>formData = Some fd\<rparr> = Some (Inr (csv_response (csv allCards)), s') \<and>
    status (csv_response (csv allCards)) = 200 \<and> body (csv_response (csv allCards)) = csv allCards)\<close>
proof (intro conjI impI)
  show "csv [] = []" by (rule csv_Nil)
  show \<open>csv [\<lparr>question = [], answer = []\<rparr>] = lit ''"",""''\<close> by (rule csv_empty_fields_example)
  assume a: "map_of fd (lit ''file'') = Some (FormFile buf) \<and> load ev buf = Some doc \<and>
    pdfBuffers (save ev) buf doc = Some (Inr bufs) \<and>
    aggregate (max_arguments ev) (generateFlashCardsFromPDF ev) s [] bufs = (Inr allCards, s')"
  then have f: "map_of fd (lit ''file'') = Some (FormFile buf)" and l: "load ev buf = Some doc"
    and p: "pdfBuffers (save ev) buf doc = Some (Inr bufs)"
    and g: "aggregate (max_arguments ev) (generateFlashCardsFromPDF ev) s [] bufs =
              (Inr allCards, s')"
    by simp_all
  show "POST ev s \<lparr>formData = Some fd\<rparr> = Some (Inr (csv_response (csv allCards)), s')"
    by (simp add: POST_file [OF f l p] g)
  show "status (csv_response (csv allCards)) = 200" by (simp add: csv_response_def)
  show "body (csv_response (csv allCards)) = csv allCards" by (simp add: csv_response_def)
qed

theorem serialize_total_witness:
  \<open>aggregate (max_arguments (example_env 5)) (generateFlashCardsFromPDF (example_env 5)) 0 []
       [[1, 2, 3]] =
     (Inr [\<lparr>question = lit ''q'', answer = example_text 0\<rparr>], 1) \<and>
   POST (example_env 5) 0 \<lparr>formData = Some [(lit ''file'', FormFile [1, 2, 3])]\<rparr> =
     Some (Inr (csv_response (lit ''"q","0"'')), 1)\<close>
proof -
  let ?D = "\<lparr>pages = [1, 2, 3::nat]\<rparr>"
  let ?fd = "[(lit ''file'', FormFile [1, 2, 3])]"
  have f: "map_of ?fd (lit ''file'') = Some (FormFile [1, 2, 3])" by simp
  have l: "load (example_env 5) [1, 2, 3] = Some ?D"
    by (simp add: example_env_def example_load_def)
  have p: "pdfBuffers (save (example_env 5)) [1, 2, 3] ?D = Some (Inr [[1, 2, 3]])"
    by (simp add: pdfBuffers_def getPageCount_def)
  have g: "aggregate (max_arguments (example_env 5)) (generateFlashCardsFromPDF (example_env 5)) 0 []
       [[1, 2, 3]] =
     (Inr [\<lparr>question = lit ''q'', answer = example_text 0\<rparr>], 1)"
    by (simp add: example_generate example_max_arguments)
  have c: \<open>csv [\<lparr>question = lit ''q'', answer = example_text 0\<rparr>] = lit ''"q","0"''\<close>
    by (simp add: csv_def csv_row_def lit_def dquote_def comma_def example_text_def)
  note t = serialize_total [of ?fd "[1, 2, 3]" "example_env 5" ?D "[[1, 2, 3]]" 0
      "[\<lparr>question = lit ''q'', answer = example_text 0\<rparr>]" 1]
  from t f l p g have "POST (example_env 5) 0 \<lparr>formData = Some ?fd\<rparr> =
     Some (Inr (csv_response (csv [\<lparr>question = lit ''q'', answer = example_text 0\<rparr>])), 1)"
    by blast
  with g c show ?thesis by simp
qed

subsection \<open>Splitting\<close>

text \<open>
  C1: a document of more than 500 pages is split into the chunks of the partition of its
  page range \<open>[0, n)\<close> into consecutive ranges of 100 pages: the chunk number \<open>i\<close>
  is the encoding of the pages from \<open>100 * i\<close> on, in page order; every range but
  the last has 100 pages, the last has \<open>n mod 100\<close> pages, or 100 when 100 divides
  \<open>n\<close>; no range is empty, each range begins where the previous one ends, the first
  begins at page 0 and the last ends at page \<open>n\<close>, so that the ranges are disjoint,
  ordered and cover every page once; the page counts of the chunks add up to \<open>n\<close>.
\<close>

theorem split_large_document:
  "500 < getPageCount masterDoc \<Longrightarrow>
   (let n = getPageCount masterDoc; rs = chunk_ranges n 100 in
      pdfBuffers sv pdfBuffer masterDoc = Some (Inr (map (\<lambda>r. sv (extractRange masterDoc r)) rs)) \<and>
      length rs = (n + 99) div 100 \<and>
      (\<forall>i<length rs. fst (rs ! i) = 100 * i \<and> fst (rs ! i) < snd (rs ! i) \<and> snd (rs ! i) \<le> n \<and>
         getPageCount (extractRange masterDoc (rs ! i)) = snd (rs ! i) - fst (rs ! i)) \<and>
      (\<forall>i. Suc i < length rs \<longrightarrow>
         snd (rs ! i) - fst (rs ! i) = 100 \<and> snd (rs ! i) = fst (rs ! Suc i)) \<and>
      (\<forall>i j. i < j \<and> j < length rs \<longrightarrow> snd (rs ! i) \<le> fst (rs ! j)) \<and>
      fst (hd rs) = 0 \<and> snd (last rs) = n \<and>
      snd (last rs) - fst (last rs) = (if n mod 100 = 0 then 100 else n mod 100) \<and>
      concat (map (\<lambda>r. [fst r..<snd r]) rs) = [0..<n] \<and>
      concat (map (\<lambda>r. pages (extractRange masterDoc r)) rs) = pages masterDoc \<and>
      sum_list (map (\<lambda>r. getPageCount (extractRange masterDoc r)) rs) = n)"
proof -
  assume large: "500 < getPageCount masterDoc"
  define n where "n = getPageCount masterDoc"
  define rs where "rs = chunk_ranges n 100"
  have c: "(0::nat) < 100" by simp
  from large have n: "0 < n" by (simp add: n_def)
  have 1: "pdfBuffers sv pdfBuffer masterDoc = Some (Inr (map (\<lambda>r. sv (extractRange masterDoc r)) rs))"
    using large unfolding rs_def n_def by (rule pdfBuffers_large)
  have 2: "length rs = (n + 99) div 100"
    by (simp add: rs_def length_chunk_ranges)
  have 3: "\<forall>i<length rs. fst (rs ! i) = 100 * i \<and> fst (rs ! i) < snd (rs ! i) \<and> snd (rs ! i) \<le> n \<and>
         getPageCount (extractRange masterDoc (rs ! i)) = snd (rs ! i) - fst (rs ! i)"
  proof (intro allI impI conjI)
    fix i assume i: "i < length rs"
    then show "fst (rs ! i) = 100 * i" "snd (rs ! i) \<le> n"
      by (simp_all add: rs_def nth_chunk_ranges)
    from i show "fst (rs ! i) < snd (rs ! i)"
      unfolding rs_def by (rule chunk_ranges_nonempty [OF c])
    from i show "getPageCount (extractRange masterDoc (rs ! i)) = snd (rs ! i) - fst (rs ! i)"
      unfolding rs_def n_def by (rule getPageCount_extractRange [OF c])
  qed
  have 4: "\<forall>i. Suc i < length rs \<longrightarrow>
         snd (rs ! i) - fst (rs ! i) = 100 \<and> snd (rs ! i) = fst (rs ! Suc i)"
  proof (intro allI impI)
    fix i assume "Suc i < length rs"
    then have i: "Suc i < length (chunk_ranges n 100)" by (simp add: rs_def)
    from chunk_ranges_full [OF c i]
    show "snd (rs ! i) - fst (rs ! i) = 100 \<and> snd (rs ! i) = fst (rs ! Suc i)"
      unfolding rs_def by simp
  qed
  have 5: "\<forall>i j. i < j \<and> j < length rs \<longrightarrow> snd (rs ! i) \<le> fst (rs ! j)"
    using chunk_ranges_ordered [of _ _ n 100] by (simp add: rs_def)
  have 6: "fst (hd rs) = 0" "snd (last rs) = n"
    "snd (last rs) - fst (last rs) = (if n mod 100 = 0 then 100 else n mod 100)"
    unfolding rs_def by (rule chunk_ranges_last [OF c n])+
  have 7: "concat (map (\<lambda>r. [fst r..<snd r]) rs) = [0..<n]"
    unfolding rs_def by (rule concat_chunk_ranges [OF c])
  have 8: "concat (map (\<lambda>r. pages (extractRange masterDoc r)) rs) = pages masterDoc"
    unfolding rs_def n_def getPageCount_def by (rule concat_extractRange [OF c])
  have 9: "sum_list (map (\<lambda>r. getPageCount (extractRange masterDoc r)) rs) = n"
    unfolding rs_def n_def by (rule sum_extractRange [OF c])
  from 1 2 3 4 5 6 7 8 9 show ?thesis
    unfolding Let_def n_def [symmetric] rs_def [symmetric] by blast
qed

theorem split_large_document_witness:
  "500 < getPageCount \<lparr>pages = [0..<650::nat]\<rparr> \<and>
   pdfBuffers example_save [] \<lparr>pages = [0..<650]\<rparr> =
     Some (Inr (map (\<lambda>r. example_save (extractRange \<lparr>pages = [0..<650]\<rparr> r))
       [(0, 100), (100, 200), (200, 300), (300, 400), (400, 500), (500, 600), (600, 650)])) \<and>
   sum_list (map (\<lambda>r. getPageCount (extractRange \<lparr>pages = [0..<650::nat]\<rparr> r))
       [(0, 100), (100, 200), (200, 300), (300, 400), (400, 500), (500, 600), (600, 650)]) = 650"
proof -
  let ?D = "\<lparr>pages = [0..<650::nat]\<rparr>"
  have g: "getPageCount ?D = 650" by (simp add: getPageCount_def del: upt_rec_numeral)
  have h: "500 < getPageCount ?D" unfolding g by simp
  have cr: "chunk_ranges 650 100 =
      [(0, 100), (100, 200), (200, 300), (300, 400), (400, 500), (500, 600), (600, 650)]"
    by code_simp
  note t = split_large_document [OF h, of example_save "[]", unfolded Let_def g cr]
  from t have 1: "pdfBuffers example_save [] ?D =
     Some (Inr (map (\<lambda>r. example_save (extractRange ?D r))
       [(0, 100), (100, 200), (200, 300), (300, 400), (400, 500), (500, 600), (600, 650)]))"
    by (rule conjunct1)
  from t have 2: "sum_list (map (\<lambda>r. getPageCount (extractRange ?D r))
       [(0, 100), (100, 200), (200, 300), (300, 400), (400, 500), (500, 600), (600, 650)]) = 650"
    by (elim conjE)
  from h 1 2 show ?thesis by (intro conjI)
qed

text \<open>
  C2: a document of at most 500 pages is not split: the only chunk is the uploaded buffer
  itself, whatever the encoder of the library would make of the document, and the
  generator is called once, on these bytes; the handler answers with the CSV text of
  the batch of this call (if \<open>push\<close> takes it).
\<close>

theorem small_document_unsplit:
  "getPageCount masterDoc \<le> 500 \<Longrightarrow>
   pdfBuffers sv pdfBuffer masterDoc = Some (Inr [pdfBuffer]) \<and>
   (map_of fd (lit ''file'') = Some (FormFile pdfBuffer) \<and> load ev pdfBuffer = Some masterDoc \<longrightarrow>
    POST (traced_env ev) (s, []) \<lparr>formData = Some fd\<rparr> =
      (case generateFlashCardsFromPDF ev s pdfBuffer of
         (Inl e, s') \<Rightarrow> Some (Inl e, (s', [pdfBuffer]))
       | (Inr cards, s') \<Rightarrow>
           if max_arguments ev < length cards then Some (Inl RangeError, (s', [pdfBuffer]))
           else Some (Inr (csv_response (csv cards)), (s', [pdfBuffer]))))"
proof (intro conjI impI)
  assume small: "getPageCount masterDoc \<le> 500"
  then show "pdfBuffers sv pdfBuffer masterDoc = Some (Inr [pdfBuffer])"
    by (rule pdfBuffers_small)
  assume "map_of fd (lit ''file'') = Some (FormFile pdfBuffer) \<and> load ev pdfBuffer = Some masterDoc"
  then have f: "map_of fd (lit ''file'') = Some (FormFile pdfBuffer)"
    and l: "load (traced_env ev) pdfBuffer = Some masterDoc"
    by (simp_all add: load_traced_env)
  have p: "pdfBuffers (save (traced_env ev)) pdfBuffer masterDoc = Some (Inr [pdfBuffer])"
    using small by (rule pdfBuffers_small)
  show "POST (traced_env ev) (s, []) \<lparr>formData = Some fd\<rparr> =
      (case generateFlashCardsFromPDF ev s pdfBuffer of
         (Inl e, s') \<Rightarrow> Some (Inl e, (s', [pdfBuffer]))
       | (Inr cards, s') \<Rightarrow>
           if max_arguments ev < length cards then Some (Inl RangeError, (s', [pdfBuffer]))
           else Some (Inr (csv_response (csv cards)), (s', [pdfBuffer])))"
    by (simp add: POST_file [OF f l p] aggregate_single generate_traced_env traced_def
        max_arguments_traced_env split: prod.splits sum.splits)
qed

theorem small_document_unsplit_witness:
  \<open>getPageCount \<lparr>pages = [1, 2, 3::nat]\<rparr> \<le> 500 \<and>
   pdfBuffers example_save [1, 2, 3] \<lparr>pages = [1, 2, 3::nat]\<rparr> = Some (Inr [[1, 2, 3]]) \<and>
   POST (traced_env (example_env 5)) (0, [])
        \<lparr>formData = Some [(lit ''file'', FormFile [1, 2, 3])]\<rparr> =
     Some (Inr (csv_response (lit ''"q","0"'')), (1, [[1, 2, 3]]))\<close>
proof -
  let ?D = "\<lparr>pages = [1, 2, 3::nat]\<rparr>"
  have h: "getPageCount ?D \<le> 500" by (simp add: getPageCount_def)
  have f: "map_of [(lit ''file'', FormFile [1, 2, 3])] (lit ''file'') = Some (FormFile [1, 2, 3])"
    by simp
  have l: "load (example_env 5) [1, 2, 3] = Some ?D"
    by (simp add: example_env_def example_load_def)
  have c: \<open>csv [\<lparr>question = lit ''q'', answer = example_text 0\<rparr>] = lit ''"q","0"''\<close>
    by (simp add: csv_def csv_row_def lit_def dquote_def comma_def example_text_def)
  note t = small_document_unsplit [OF h, of example_save "[1, 2, 3]"
      "[(lit ''file'', FormFile [1, 2, 3])]" "example_env 5" 0]
  from t f l have "POST (traced_env (example_env 5)) (0, [])
        \<lparr>formData = Some [(lit ''file'', FormFile [1, 2, 3])]\<rparr> =
     Some (Inr (csv_response (csv [\<lparr>question = lit ''q'', answer = example_text 0\<rparr>])),
           (1, [[1, 2, 3]]))"
    by (simp add: example_generate example_max_arguments)
  with t h c show ?thesis by simp
qed

text \<open>
  C9: a document without pages does not stop the handler: it is not split, the only
  chunk is the uploaded buffer, and the loop over this one chunk is the one generator
  call followed by the one \<open>push\<close> of its batch, so that the outcome is the outcome of
  the call (of \<open>push\<close>, should the batch be too large for it); \<open>splitPdf\<close> itself
  would return the empty list of chunks on such a document, whatever the chunk size,
  and the loop over no chunk ends with no cards and no call.
\<close>

theorem empty_document:
  "getPageCount masterDoc = 0 \<Longrightarrow>
   pdfBuffers sv pdfBuffer masterDoc = Some (Inr [pdfBuffer]) \<and>
   splitPdf sv (getPageCount masterDoc) masterDoc chunkSize = Some (Inr []) \<and>
   aggregate cap g s [] [pdfBuffer] =
     (case g s pdfBuffer of
        (Inl e, s') \<Rightarrow> (Inl e, s')
      | (Inr cards, s') \<Rightarrow> if cap < length cards then (Inl RangeError, s') else (Inr cards, s')) \<and>
   (pushed cap (fst (g s pdfBuffer)) \<longrightarrow> aggregate cap g s [] [pdfBuffer] = g s pdfBuffer) \<and>
   aggregate cap g s [] [] = (Inr [], s) \<and>
   (map_of fd (lit ''file'') = Some (FormFile pdfBuffer) \<and> load ev pdfBuffer = Some masterDoc \<longrightarrow>
    POST ev t \<lparr>formData = Some fd\<rparr> =
      (case generateFlashCardsFromPDF ev t pdfBuffer of
         (Inl e, t') \<Rightarrow> Some (Inl e, t')
       | (Inr cards, t') \<Rightarrow>
           if max_arguments ev < length cards then Some (Inl RangeError, t')
           else Some (Inr (csv_response (csv cards)), t')))"
proof (intro conjI impI)
  assume z: "getPageCount masterDoc = 0"
  then have small: "getPageCount masterDoc \<le> 500" by simp
  then show "pdfBuffers sv pdfBuffer masterDoc = Some (Inr [pdfBuffer])"
    by (rule pdfBuffers_small)
  from z show "splitPdf sv (getPageCount masterDoc) masterDoc chunkSize = Some (Inr [])"
    by (simp add: splitPdf_def splitPdf_loop.simps)
  show "aggregate cap g s [] [pdfBuffer] =
     (case g s pdfBuffer of
        (Inl e, s') \<Rightarrow> (Inl e, s')
      | (Inr cards, s') \<Rightarrow> if cap < length cards then (Inl RangeError, s') else (Inr cards, s'))"
    by (rule aggregate_single)
  show "aggregate cap g s [] [] = (Inr [], s)" by simp
  show "aggregate cap g s [] [pdfBuffer] = g s pdfBuffer" if "pushed cap (fst (g s pdfBuffer))"
    using that by (cases "g s pdfBuffer") (auto simp: pushed_def split: sum.splits)
  assume "map_of fd (lit ''file'') = Some (FormFile pdfBuffer) \<and> load ev pdfBuffer = Some masterDoc"
  then have f: "map_of fd (lit ''file'') = Some (FormFile pdfBuffer)"
    and l: "load ev pdfBuffer = Some masterDoc" by simp_all
  have p: "pdfBuffers (save ev) pdfBuffer masterDoc = Some (Inr [pdfBuffer])"
    using small by (rule pdfBuffers_small)
  show "POST ev t \<lparr>formData = Some fd\<rparr> =
      (case generateFlashCardsFromPDF ev t pdfBuffer of
         (Inl e, t') \<Rightarrow> Some (Inl e, t')
       | (Inr cards, t') \<Rightarrow>
           if max_arguments ev < length cards then Some (Inl RangeError, t')
           else Some (Inr (csv_response (csv cards)), t'))"
    by (simp add: POST_file [OF f l p] aggregate_single split: prod.splits sum.splits)
qed

theorem empty_document_witness:
  \<open>getPageCount \<lparr>pages = ([]::nat list)\<rparr> = 0 \<and>
   pdfBuffers example_save [] \<lparr>pages = ([]::nat list)\<rparr> = Some (Inr [[]]) \<and>
   splitPdf example_save 0 \<lparr>pages = ([]::nat list)\<rparr> 100 = Some (Inr []) \<and>
   POST (example_env 5) 0 \<lparr>formData = Some [(lit ''file'', FormFile [])]\<rparr> =
     Some (Inr (csv_response (lit ''"q","0"'')), 1)\<close>
proof -
  let ?D = "\<lparr>pages = ([]::nat list)\<rparr>"
  have h: "getPageCount ?D = 0" by (simp add: getPageCount_def)
  have f: "map_of [(lit ''file'', FormFile [])] (lit ''file'') = Some (FormFile [])"
    by simp
  have l: "load (example_env 5) [] = Some ?D"
    by (simp add: example_env_def example_load_def)
  have c: \<open>csv [\<lparr>question = lit ''q'', answer = example_text 0\<rparr>] = lit ''"q","0"''\<close>
    by (simp add: csv_def csv_row_def lit_def dquote_def comma_def example_text_def)
  note t = empty_document [OF h, of example_save "[]" 100 125000
      "generateFlashCardsFromPDF (example_env 5)" 0
      "[(lit ''file'', FormFile [])]" "example_env 5" 0]
  from t f l have "POST (example_env 5) 0 \<lparr>formData = Some [(lit ''file'', FormFile [])]\<rparr> =
     Some (Inr (csv_response (csv [\<lparr>question = lit ''q'', answer = example_text 0\<rparr>])), 1)"
    by (simp add: example_generate example_max_arguments)
  with t h c show ?thesis by simp
qed

subsection \<open>Aggregation\<close>

text \<open>
  C3: the loop is to call the generator once per chunk, in the order of the chunks, and
  to return the concatenation of the batches in that order. It does not for every
  generator: when a call returns a batch of more cards than a call of \<open>push\<close> takes
  arguments, \<^verbatim>\<open>allCards.push(...cards)\<close> throws a \<open>RangeError\<close>; the loop ends
  there with this error instead of the concatenation, whatever it had collected, and
  the chunks after this one are not processed.
\<close>

theorem aggregate_large_batch_throws:
  "cap < length cards \<Longrightarrow> g s c = (Inr cards, s') \<Longrightarrow>
   aggregate cap (traced g) (s, []) allCards (c # cs) = (Inl RangeError, (s', [c])) \<and>
   aggregate cap (traced g) (s, []) allCards (c # cs) \<noteq>
     (Inr (allCards @ concat (batches (replies g s (c # cs)))),
      (final_state g s (c # cs), c # cs))"
  by (simp add: traced_def)

theorem aggregate_large_batch_throws_witness:
  "125000 < length (replicate 130000 \<lparr>question = lit ''q'', answer = lit ''a''\<rparr>) \<and>
   bulk_generator 0 [1] =
     (Inr (replicate 130000 \<lparr>question = lit ''q'', answer = lit ''a''\<rparr>), 1) \<and>
   aggregate 125000 (traced bulk_generator) (0, []) [] [[1], [2]] =
     (Inl RangeError, (1, [[1]]))"
proof -
  let ?cards = "replicate 130000 \<lparr>question = lit ''q'', answer = lit ''a''\<rparr>"
  have l: "125000 < length ?cards" by simp
  have g: "bulk_generator 0 [1] = (Inr ?cards, 1)" by (simp add: bulk_generator_def)
  from aggregate_large_batch_throws [of 125000 ?cards bulk_generator 0 "[1]" 1 "[]" "[[2]]"] l g
  show ?thesis by blast
qed

text \<open>
  C5: when the call for the chunk number \<open>k\<close> is the first to fail, the loop ends with
  an error and without cards, whatever was collected before; the calls made are those
  for the chunks \<open>0\<close> to \<open>j\<close>, each once, where \<open>j\<close> is the chunk at which the loop
  stops, so that no call is repeated and no later chunk is processed. The loop stops at
  the chunk \<open>k\<close>, with the error of its call, when \<open>push\<close> has taken every batch before
  it, and before \<open>k\<close> otherwise. The handler then returns no response at all: the error
  leaves it, and no CSV text is produced.
\<close>

theorem generator_failure_aborts:
  "k < length bufs \<Longrightarrow> list_all succeeded (take k (replies g s bufs)) \<Longrightarrow>
   replies g s bufs ! k = Inl e \<Longrightarrow>
   (let rs = replies g s bufs; j = first_failure cap rs; err = failure_error (rs ! j);
        st = (final_state g s (take (Suc j) bufs), take (Suc j) bufs)
    in j \<le> k \<and> (j = k \<longrightarrow> err = e) \<and>
       (list_all (pushed cap) (take k rs) \<longrightarrow> j = k) \<and>
       aggregate cap (traced g) (s, []) acc bufs = (Inl err, st) \<and>
       (g = generateFlashCardsFromPDF ev \<and> cap = max_arguments ev \<and>
        map_of fd (lit ''file'') = Some (FormFile buf) \<and>
        load ev buf = Some doc \<and> pdfBuffers (save ev) buf doc = Some (Inr bufs) \<longrightarrow>
        POST (traced_env ev) (s, []) \<lparr>formData = Some fd\<rparr> = Some (Inl err, st)))"
proof -
  assume k: "k < length bufs" and ok: "list_all succeeded (take k (replies g s bufs))"
    and e: "replies g s bufs ! k = Inl e"
  define rs where "rs = replies g s bufs"
  define j where "j = first_failure cap rs"
  define err where "err = failure_error (rs ! j)"
  define st where "st = (final_state g s (take (Suc j) bufs), take (Suc j) bufs)"
  from k have kr: "k < length rs" by (simp add: rs_def length_replies)
  from e have np: "\<not> pushed cap (rs ! k)" by (simp add: rs_def pushed_def)
  have jk: "j \<le> k" unfolding j_def using kr np by (rule first_failure_le)
  with k have jl: "j < length bufs" by simp
  have je: "err = e" if "j = k"
    using that e by (simp add: err_def rs_def failure_error_def)
  have jeq: "j = k" if "list_all (pushed cap) (take k rs)"
    unfolding j_def using kr np that by (rule first_failure_eq)
  have agg: "aggregate cap (traced g) (s, []) acc bufs = (Inl err, st)" for acc
  proof -
    have "first_failure cap (replies (traced g) (s, []) bufs) < length bufs"
      using jl by (simp add: replies_traced j_def rs_def)
    from aggregate_first_failure [OF this, of acc] show ?thesis
      by (simp add: replies_traced final_state_traced err_def st_def j_def rs_def)
  qed
  have "POST (traced_env ev) (s, []) \<lparr>formData = Some fd\<rparr> = Some (Inl err, st)"
    if "g = generateFlashCardsFromPDF ev" and "cap = max_arguments ev"
      and f: "map_of fd (lit ''file'') = Some (FormFile buf)"
      and "load ev buf = Some doc" and "pdfBuffers (save ev) buf doc = Some (Inr bufs)"
  proof -
    from that have l: "load (traced_env ev) buf = Some doc"
      and p: "pdfBuffers (save (traced_env ev)) buf doc = Some (Inr bufs)"
      by (simp_all add: load_traced_env save_traced_env)
    from agg [of "[]"] that(1,2) show ?thesis
      by (simp add: POST_file [OF f l p] generate_traced_env max_arguments_traced_env)
  qed
  with jk je jeq agg [of acc] show ?thesis
    unfolding Let_def rs_def [symmetric] j_def [symmetric] err_def [symmetric]
      st_def [symmetric] by blast
qed

theorem generator_failure_aborts_witness:
  "POST (traced_env (example_env 3)) (0, [])
        \<lparr>formData = Some [(lit ''file'', FormFile upload650)]\<rparr> =
     Some (Inl GeneratorCallError,
           (4, map (\<lambda>r. example_save (extractRange \<lparr>pages = replicate 650 7\<rparr> r))
                 [(0, 100), (100, 200), (200, 300), (300, 400)]))"
proof -
  let ?D = "\<lparr>pages = replicate 650 (7::nat)\<rparr>"
  let ?g = "generateFlashCardsFromPDF (example_env 3)"
  let ?bufs = "map (\<lambda>r. example_save (extractRange ?D r))
       [(0, 100), (100, 200), (200, 300), (300, 400), (400, 500), (500, 600), (600, 650)]"
  let ?fd = "[(lit ''file'', FormFile upload650)]"
  let ?cap = "max_arguments (example_env 3)"
  have k: "3 < length ?bufs" by simp
  have ok: "list_all succeeded (take 3 (replies ?g 0 ?bufs))"
    by (simp add: example_generate succeeded_def)
  have e: "replies ?g 0 ?bufs ! 3 = Inl GeneratorCallError"
    by (simp add: example_generate)
  have f: "map_of ?fd (lit ''file'') = Some (FormFile upload650)" by simp
  have j: "first_failure ?cap (replies ?g 0 ?bufs) = 3"
    by (simp add: example_generate first_failure_def pushed_def example_max_arguments)
  have fe: "failure_error (replies ?g 0 ?bufs ! 3) = GeneratorCallError"
    by (simp add: example_generate failure_error_def)
  have fs: "final_state ?g 0 (take (Suc 3) ?bufs) = 4"
    by (simp add: example_generate)
  note t = generator_failure_aborts [OF k ok e, of ?cap "[]" "example_env 3" ?fd upload650 ?D,
      unfolded Let_def j fe]
  from t f upload650_loaded(1) [of 3] upload650_chunks [of 3]
  have "POST (traced_env (example_env 3)) (0, []) \<lparr>formData = Some ?fd\<rparr> =
      Some (Inl GeneratorCallError, (final_state ?g 0 (take (Suc 3) ?bufs), take (Suc 3) ?bufs))"
    by blast
  then show ?thesis unfolding fs by simp
qed

subsection \<open>Rejected input\<close>

text \<open>
  C7, as the handler has it: a form without a file under \<open>file\<close> (no such field, or a
  text field) is answered with status 400 and a JSON body, and the generator is not
  called. When the library cannot load the uploaded bytes, the handler builds no
  response: the exception of \<open>PDFDocument.load\<close> leaves it, before any call of the
  generator.
\<close>

theorem invalid_input_handling:
  "((\<forall>b. map_of fd (lit ''file'') \<noteq> Some (FormFile b)) \<longrightarrow>
      POST ev s \<lparr>formData = Some fd\<rparr> = Some (Inr missing_file_response, s) \<and>
      rejected_400 (POST ev s \<lparr>formData = Some fd\<rparr>)) \<and>
   (map_of fd (lit ''file'') = Some (FormFile buf) \<and> load ev buf = None \<longrightarrow>
      POST ev s \<lparr>formData = Some fd\<rparr> = Some (Inl PdfLoadError, s) \<and>
      POST (traced_env ev) (s, []) \<lparr>formData = Some fd\<rparr> = Some (Inl PdfLoadError, (s, [])))"
proof (intro conjI impI)
  assume a: "\<forall>b. map_of fd (lit ''file'') \<noteq> Some (FormFile b)"
  then show p: "POST ev s \<lparr>formData = Some fd\<rparr> = Some (Inr missing_file_response, s)"
    by (auto simp: POST_def split: option.splits form_value.splits)
  show "rejected_400 (POST ev s \<lparr>formData = Some fd\<rparr>)"
    unfolding p by (simp add: rejected_400_def missing_file_response_def)
next
  assume a: "map_of fd (lit ''file'') = Some (FormFile buf) \<and> load ev buf = None"
  then show "POST ev s \<lparr>formData = Some fd\<rparr> = Some (Inl PdfLoadError, s)"
    by (simp add: POST_def)
  from a show "POST (traced_env ev) (s, []) \<lparr>formData = Some fd\<rparr> = Some (Inl PdfLoadError, (s, []))"
    by (simp add: POST_def load_traced_env)
qed

theorem invalid_input_handling_witness:
  "POST never_pdf 0 \<lparr>formData = Some [(lit ''name'', FormString (lit ''x''))]\<rparr> =
     Some (Inr missing_file_response, 0) \<and>
   rejected_400 (POST never_pdf 0 \<lparr>formData = Some [(lit ''name'', FormString (lit ''x''))]\<rparr>) \<and>
   POST (traced_env never_pdf) (0, []) \<lparr>formData = Some [(lit ''file'', FormFile [1, 2, 3])]\<rparr> =
     Some (Inl PdfLoadError, (0, []))"
proof -
  have a: "\<forall>b. map_of [(lit ''name'', FormString (lit ''x''))] (lit ''file'') \<noteq> Some (FormFile b)"
    by (simp add: lit_def)
  have f: "map_of [(lit ''file'', FormFile [1, 2, 3])] (lit ''file'') = Some (FormFile [1, 2, 3])"
    by simp
  have l: "load never_pdf [1, 2, 3] = None" by (simp add: never_pdf_def)
  from invalid_input_handling [of "[(lit ''name'', FormString (lit ''x''))]" never_pdf 0] a
  have 1: "POST never_pdf 0 \<lparr>formData = Some [(lit ''name'', FormString (lit ''x''))]\<rparr> =
     Some (Inr missing_file_response, 0) \<and>
     rejected_400 (POST never_pdf 0 \<lparr>formData = Some [(lit ''name'', FormString (lit ''x''))]\<rparr>)"
    by blast
  from invalid_input_handling [of "[(lit ''file'', FormFile [1, 2, 3])]" never_pdf 0 "[1, 2, 3]"] f l
  have 2: "POST (traced_env never_pdf) (0, []) \<lparr>formData = Some [(lit ''file'', FormFile [1, 2, 3])]\<rparr> =
     Some (Inl PdfLoadError, (0, []))"
    by blast
  from 1 2 show ?thesis by blast
qed

text \<open>
  The response to an upload that is not a PDF is therefore not the 400 response of the
  missing file.
\<close>

theorem unparseable_upload_not_400:
  "\<not> rejected_400 (POST never_pdf 0 \<lparr>formData = Some [(lit ''file'', FormFile [1, 2, 3])]\<rparr>)"
  by (simp add: POST_def never_pdf_def rejected_400_def)

subsection \<open>Validation of the generator response\<close>




end
